theory Spec2Isabelle
  imports Main "HOL-Library.AList" "HOL-Library.Char_ord" "HOL-Library.List_Lexorder"
    "HOL-Library.Sublist"
begin

section \<open>Python values used by the extractor\<close>

text \<open>
  The module \<^verbatim>\<open>haicor/process/extractor.py\<close> holds one class, \<^verbatim>\<open>TrieConceptExtractor\<close>.
  A token is a Python \<^verbatim>\<open>str\<close>. A concept is annotated \<^verbatim>\<open>Tuple[str, ...]\<close>, but nothing in the
  code checks the annotation, and the code behaves differently on a tuple and on a list:
  \<^verbatim>\<open>[] in entries\<close> compares each entry with the empty \<^emph>\<open>list\<close>, and in Python a list never
  equals a tuple. The model therefore keeps, for every concept, which of the two sequence
  types it is.
\<close>

type_synonym token = string

datatype error = TypeError

datatype pyseq = PyTuple "token list" | PyList "token list"

fun items :: "pyseq \<Rightarrow> token list" where
  "items (PyTuple ts) = ts"
| "items (PyList ts) = ts"

fun is_tuple :: "pyseq \<Rightarrow> bool" where
  "is_tuple (PyTuple ts) = True"
| "is_tuple (PyList ts) = False"

text \<open>Truth value of a sequence (\<^verbatim>\<open>if i\<close>): a sequence is true iff it is not empty.\<close>

fun truthy :: "pyseq \<Rightarrow> bool" where
  "truthy s = (items s \<noteq> [])"

text \<open>The slice \<^verbatim>\<open>i[1:]\<close>: it keeps the type of the sequence, and is empty on the empty one.\<close>

fun slice1 :: "pyseq \<Rightarrow> pyseq" where
  "slice1 (PyTuple ts) = PyTuple (tl ts)"
| "slice1 (PyList ts) = PyList (tl ts)"

text \<open>
  The trie is a Python \<^verbatim>\<open>dict\<close> from a token to a pair \<^verbatim>\<open>(bool, dict)\<close>. A dict keeps its keys
  in insertion order, so it is an association list with distinct keys; storing under a
  key that is present replaces the value in place (\<^const>\<open>AList.update\<close>).
\<close>

datatype pydict = PyDict "(token \<times> bool \<times> pydict) list"

fun entries_of :: "pydict \<Rightarrow> (token \<times> bool \<times> pydict) list" where
  "entries_of (PyDict kvs) = kvs"

text \<open>\<^verbatim>\<open>pointer.get(token)\<close>; \<^verbatim>\<open>token not in pointer\<close> is the result \<^const>\<open>None\<close>.\<close>

definition get :: "pydict \<Rightarrow> token \<Rightarrow> (bool \<times> pydict) option" where
  "get pointer token = map_of (entries_of pointer) token"

text \<open>A dict comprehension \<^verbatim>\<open>{k: v for k, v in pairs}\<close> stores the pairs from left to right.\<close>

definition dict_of_pairs :: "('k \<times> 'v) list \<Rightarrow> ('k \<times> 'v) list" where
  "dict_of_pairs ps = fold (\<lambda>(k, v) d. AList.update k v d) ps []"

section \<open>Building the trie\<close>

text \<open>
  \<^verbatim>\<open>itertools.groupby(entries, key)\<close> yields one pair \<^verbatim>\<open>(key, group)\<close> for every maximal run of
  consecutive entries with equal keys.
\<close>

function groupby :: "('a \<Rightarrow> 'k) \<Rightarrow> 'a list \<Rightarrow> ('k \<times> 'a list) list" where
  "groupby key [] = []"
| "groupby key (x # xs) =
     (key x, x # takeWhile (\<lambda>y. key y = key x) xs)
       # groupby key (dropWhile (\<lambda>y. key y = key x) xs)"
  by pat_completeness auto
termination
  by (relation "measure (\<lambda>(key, xs). length xs)")
     (auto simp: less_Suc_eq_le length_dropWhile_le)

lemma groupby_sum_le:
  "(h, ts) \<in> set (groupby key xs) \<Longrightarrow> sum_list (map f ts) \<le> (sum_list (map f xs) :: nat)"
proof (induction key xs rule: groupby.induct)
  case (1 key)
  then show ?case by simp
next
  case (2 key x xs)
  let ?P = "\<lambda>y. key y = key x"
  have parts: "sum_list (map f xs)
      = sum_list (map f (takeWhile ?P xs)) + sum_list (map f (dropWhile ?P xs))"
    by (metis map_append sum_list_append takeWhile_dropWhile_id)
  from 2 show ?case using parts by auto
qed

lemma groupby_nonempty:
  "(h, ts) \<in> set (groupby key xs) \<Longrightarrow> ts \<noteq> [] \<and> set ts \<subseteq> set xs"
  by (induction key xs rule: groupby.induct) (auto dest: set_takeWhileD set_dropWhileD)

lemma groupby_key: "(h, ts) \<in> set (groupby key xs) \<Longrightarrow> t \<in> set ts \<Longrightarrow> key t = h"
proof (induction key xs rule: groupby.induct)
  case (1 key)
  then show ?case by simp
next
  case (2 key x xs)
  show ?case
  proof (cases "(h, ts) \<in> set (groupby key (dropWhile (\<lambda>y. key y = key x) xs))")
    case True
    then show ?thesis using "2.IH" "2.prems"(2) by blast
  next
    case False
    with "2.prems"(1) have h: "h = key x" and ts: "ts = x # takeWhile (\<lambda>y. key y = key x) xs"
      by simp_all
    from "2.prems"(2) ts have "t = x \<or> t \<in> set (takeWhile (\<lambda>y. key y = key x) xs)"
      by simp
    then have "key t = key x"
      using set_takeWhileD by fastforce
    with h show ?thesis by simp
  qed
qed

lemma items_slice1 [simp]: "items (slice1 s) = tl (items s)"
  by (cases s) simp_all

lemma slice1_sum_less:
  assumes "ts \<noteq> []" and "\<forall>t\<in>set ts. truthy t"
  shows "sum_list (map (\<lambda>e. length (items e)) (map slice1 ts))
           < sum_list (map (\<lambda>e. length (items e)) ts)"
  using assms
proof (induction ts)
  case Nil
  then show ?case by simp
next
  case (Cons t ts)
  have le: "sum_list (map (\<lambda>e. length (items e)) (map slice1 ts))
              \<le> sum_list (map (\<lambda>e. length (items e)) ts)"
    by (induction ts) (auto simp: le_diff_conv)
  from Cons.prems have "items t \<noteq> []" by simp
  then have "length (items (slice1 t)) < length (items t)" by simp
  with le show ?case by simp
qed

lemma filter_sum_le: "sum_list (map f (filter P xs)) \<le> (sum_list (map f xs) :: nat)"
  by (induction xs) auto

text \<open>
  The local function \<^verbatim>\<open>build_trie\<close>. The flag of a node is \<^verbatim>\<open>[] in entries\<close>: some entry equals
  the empty list, which an empty tuple does not. \<^verbatim>\<open>x[0]\<close> is only taken of the entries that
  passed \<^verbatim>\<open>if i\<close>, so it never raises.
\<close>

function build_trie :: "pyseq list \<Rightarrow> bool \<times> pydict" where
  "build_trie entries =
     (PyList [] \<in> set entries,
      PyDict (dict_of_pairs
        (map (\<lambda>(head, tails). (head, build_trie (map slice1 tails)))
             (groupby (\<lambda>x. hd (items x)) (filter truthy entries)))))"
  by pat_completeness auto
termination
proof (relation "measure (\<lambda>es. sum_list (map (\<lambda>e. length (items e)) es))", goal_cases)
  case 1
  then show ?case by simp
next
  case (2 entries x head tails)
  then have mem: "(head, tails) \<in> set (groupby (\<lambda>x. hd (items x)) (filter truthy entries))"
    by simp
  from groupby_nonempty [OF mem] have ne: "tails \<noteq> []" and tr: "\<forall>t\<in>set tails. truthy t"
    by auto
  have "sum_list (map (\<lambda>e. length (items e)) (map slice1 tails))
          < sum_list (map (\<lambda>e. length (items e)) tails)"
    by (rule slice1_sum_less [OF ne tr])
  also have "\<dots> \<le> sum_list (map (\<lambda>e. length (items e)) (filter truthy entries))"
    by (rule groupby_sum_le [OF mem])
  also have "\<dots> \<le> sum_list (map (\<lambda>e. length (items e)) entries)"
    by (rule filter_sum_le)
  finally show ?case by simp
qed

declare build_trie.simps [simp del]

text \<open>
  \<^verbatim>\<open>sorted(dictionary)\<close> compares the concepts with \<^verbatim>\<open><\<close>: two tuples, or two lists, of strings
  compare lexicographically; a tuple and a list do not compare, and the sort raises
  \<^verbatim>\<open>TypeError\<close> as soon as it meets such a pair, which it does whenever both types occur.
\<close>

definition comparable :: "pyseq list \<Rightarrow> bool" where
  "comparable xs = (\<forall>x\<in>set xs. \<forall>y\<in>set xs. is_tuple x = is_tuple y)"

definition sorted_py :: "pyseq list \<Rightarrow> error + pyseq list" where
  "sorted_py xs = (if comparable xs then Inr (sort_key items xs) else Inl TypeError)"

definition to_trie :: "pyseq list \<Rightarrow> error + pydict" where
  "to_trie dictionary =
     (case sorted_py dictionary of
        Inl e \<Rightarrow> Inl e
      | Inr entries \<Rightarrow> Inr (snd (build_trie entries)))"

section \<open>The extractor\<close>

record extractor =
  dictionary :: pydict

text \<open>\<^verbatim>\<open>TrieConceptExtractor.__init__\<close>.\<close>

definition init :: "pyseq list \<Rightarrow> error + extractor" where
  "init dict =
     (case to_trie dict of
        Inl e \<Rightarrow> Inl e
      | Inr trie \<Rightarrow> Inr \<lparr>dictionary = trie\<rparr>)"

text \<open>
  An active match is \<^verbatim>\<open>((start, match), pointer)\<close>. The generator's output is the list of the
  pairs it yields, in the order it yields them.
\<close>

type_synonym emitted = "nat \<times> token list"
type_synonym active = "(nat \<times> token list) \<times> pydict"

text \<open>The inner loop \<^verbatim>\<open>for (start, match), pointer in matches\<close>, threading the yields and \<^verbatim>\<open>updates\<close>.\<close>

fun inner_loop :: "token \<Rightarrow> active list \<Rightarrow> emitted list \<times> active list
                     \<Rightarrow> emitted list \<times> active list" where
  "inner_loop token [] (out, updates) = (out, updates)"
| "inner_loop token (((start, match), pointer) # rest) (out, updates) =
     (case get pointer token of
        None \<Rightarrow> inner_loop token rest (out, updates)
      | Some (matched, pointer') \<Rightarrow>
          inner_loop token rest
            (if matched then out @ [(start, match @ [token])] else out,
             updates @ [((start, match @ [token]), pointer')]))"

text \<open>
  The outer loop over \<^verbatim>\<open>enumerate(tokens)\<close>. Its state is \<^verbatim>\<open>matches\<close> and the yields so far;
  \<^verbatim>\<open>updates\<close> is empty at the start of every iteration.
\<close>

fun outer_loop :: "extractor \<Rightarrow> (nat \<times> token) list \<Rightarrow> active list \<times> emitted list
                     \<Rightarrow> active list \<times> emitted list" where
  "outer_loop self [] (matches, out) = (matches, out)"
| "outer_loop self ((index, token) # rest) (matches, out) =
     (let (out', updates) =
            inner_loop token (matches @ [((index, []), dictionary self)]) (out, [])
      in outer_loop self rest (updates, out'))"

definition extract_py :: "extractor \<Rightarrow> token list \<Rightarrow> emitted list" where
  "extract_py self tokens = snd (outer_loop self (enumerate 0 tokens) ([], []))"

section \<open>Vocabulary of the properties\<close>

text \<open>
  Following a path of tokens from a node of the trie: \<^const>\<open>None\<close> when some token is not a key
  of the dict reached so far, else the pair \<^verbatim>\<open>(flag, dict)\<close> the path ends in.
\<close>

fun walk :: "bool \<times> pydict \<Rightarrow> token list \<Rightarrow> (bool \<times> pydict) option" where
  "walk node [] = Some node"
| "walk node (x # xs) =
     (case get (snd node) x of None \<Rightarrow> None | Some node' \<Rightarrow> walk node' xs)"

text \<open>A path is flagged when it leads from the root dict to a node whose flag is true.\<close>

definition flagged :: "pydict \<Rightarrow> token list \<Rightarrow> bool" where
  "flagged trie path =
     (case walk (False, trie) path of None \<Rightarrow> False | Some (matched, pointer) \<Rightarrow> matched)"

text \<open>The Python slice \<^verbatim>\<open>xs[i:j]\<close> for indices that are not negative.\<close>

definition slice :: "token list \<Rightarrow> nat \<Rightarrow> nat \<Rightarrow> token list" where
  "slice xs i j = take (j - i) (drop i xs)"

text \<open>
  What one pass of the inner loop does to one active match: the match it carries over and
  the pair it yields, if any.
\<close>

fun advance :: "token \<Rightarrow> active \<Rightarrow> active list" where
  "advance token ((start, match), pointer) =
     (case get pointer token of
        None \<Rightarrow> []
      | Some (matched, pointer') \<Rightarrow> [((start, match @ [token]), pointer')])"

fun emit :: "token \<Rightarrow> active \<Rightarrow> emitted list" where
  "emit token ((start, match), pointer) =
     (case get pointer token of
        None \<Rightarrow> []
      | Some (matched, pointer') \<Rightarrow> if matched then [(start, match @ [token])] else [])"

text \<open>
  After the tokens \<^verbatim>\<open>seen\<close>, the active match that started at index \<^verbatim>\<open>i\<close>, and the pair yielded
  for it on the last token.
\<close>

definition active_at :: "pydict \<Rightarrow> token list \<Rightarrow> nat \<Rightarrow> active list" where
  "active_at trie seen i =
     (case walk (False, trie) (drop i seen) of
        None \<Rightarrow> []
      | Some (matched, pointer) \<Rightarrow> [((i, drop i seen), pointer)])"

definition emit_at :: "pydict \<Rightarrow> token list \<Rightarrow> nat \<Rightarrow> emitted list" where
  "emit_at trie seen i =
     (case walk (False, trie) (drop i seen) of
        None \<Rightarrow> []
      | Some (matched, pointer) \<Rightarrow> if matched then [(i, drop i seen)] else [])"

definition active_of :: "pydict \<Rightarrow> token list \<Rightarrow> active list" where
  "active_of trie seen = concat (map (active_at trie seen) [0..<length seen])"

definition emits_of :: "pydict \<Rightarrow> token list \<Rightarrow> emitted list" where
  "emits_of trie seen = concat (map (emit_at trie seen) [0..<length seen])"

definition all_emits :: "pydict \<Rightarrow> token list \<Rightarrow> emitted list" where
  "all_emits trie tokens =
     concat (map (\<lambda>k. emits_of trie (take (Suc k) tokens)) [0..<length tokens])"

text \<open>
  The completion index of a yielded pair is the index of its last token; one pair is before
  another when it completes earlier, or at the same index with a smaller start.
\<close>

definition completion_index :: "emitted \<Rightarrow> int" where
  "completion_index e = int (fst e) + int (length (snd e)) - 1"

definition emitted_before :: "emitted \<Rightarrow> emitted \<Rightarrow> bool" where
  "emitted_before a b =
     (completion_index a < completion_index b
      \<or> (completion_index a = completion_index b \<and> fst a < fst b))"

text \<open>The length of the longest concept, and the loop state after \<^verbatim>\<open>k\<close> iterations.\<close>

definition max_concept_length :: "pyseq list \<Rightarrow> nat" where
  "max_concept_length dict = foldr (\<lambda>c m. max (length (items c)) m) dict 0"

definition state_after :: "extractor \<Rightarrow> token list \<Rightarrow> nat \<Rightarrow> active list \<times> emitted list" where
  "state_after self tokens k = outer_loop self (take k (enumerate 0 tokens)) ([], [])"

section \<open>What the extraction loop computes\<close>

text \<open>
  The loop keeps, for every start index whose tokens so far are a path of the trie, one active
  match, in ascending order of start; on each token it yields the pairs of the paths that end
  in a flagged node. So \<^const>\<open>extract_py\<close> is \<^const>\<open>all_emits\<close>, which is proved by induction on the
  stream from its end.
\<close>

lemma walk_snoc:
  "walk node (xs @ [x]) = (case walk node xs of None \<Rightarrow> None | Some n \<Rightarrow> get (snd n) x)"
  by (induction xs arbitrary: node) (auto split: option.splits)

lemma inner_loop_eq:
  "inner_loop token ms (out, updates)
     = (out @ concat (map (emit token) ms), updates @ concat (map (advance token) ms))"
proof (induction ms arbitrary: out updates)
  case Nil
  then show ?case by simp
next
  case (Cons a ms)
  obtain start match pointer where a: "a = ((start, match), pointer)"
    by (metis surj_pair)
  show ?case
    by (cases "get pointer token") (auto simp: a Cons.IH)
qed

lemma outer_loop_append:
  "outer_loop self (xs @ ys) st = outer_loop self ys (outer_loop self xs st)"
proof (induction xs arbitrary: st)
  case Nil
  then show ?case by (cases st) simp
next
  case (Cons p xs)
  obtain index token where p: "p = (index, token)" by (cases p)
  obtain matches out where st: "st = (matches, out)" by (cases st)
  show ?case by (simp add: p st Cons.IH split: prod.splits)
qed

lemma concat_map_concat_map:
  "concat (map f (concat (map g xs))) = concat (map (\<lambda>i. concat (map f (g i))) xs)"
  by (induction xs) simp_all

lemma advance_active_at:
  assumes "i < length seen"
  shows "concat (map (advance x) (active_at trie seen i)) = active_at trie (seen @ [x]) i"
proof -
  from assms have d: "drop i (seen @ [x]) = drop i seen @ [x]" by simp
  show ?thesis
    unfolding active_at_def d walk_snoc
    by (cases "walk (False, trie) (drop i seen)") (auto split: option.splits)
qed

lemma emit_active_at:
  assumes "i < length seen"
  shows "concat (map (emit x) (active_at trie seen i)) = emit_at trie (seen @ [x]) i"
proof -
  from assms have d: "drop i (seen @ [x]) = drop i seen @ [x]" by simp
  show ?thesis
    unfolding active_at_def emit_at_def d walk_snoc
    by (cases "walk (False, trie) (drop i seen)") (auto split: option.splits)
qed

lemma advance_seed:
  "advance x ((length seen, []), trie) = active_at trie (seen @ [x]) (length seen)"
  by (auto simp: active_at_def split: option.splits)

lemma emit_seed:
  "emit x ((length seen, []), trie) = emit_at trie (seen @ [x]) (length seen)"
  by (auto simp: emit_at_def split: option.splits)

lemma advance_active_of:
  "concat (map (advance x) (active_of trie seen @ [((length seen, []), trie)]))
     = active_of trie (seen @ [x])"
proof -
  have "concat (map (advance x) (active_of trie seen))
          = concat (map (\<lambda>i. concat (map (advance x) (active_at trie seen i))) [0..<length seen])"
    unfolding active_of_def by (rule concat_map_concat_map)
  also have "\<dots> = concat (map (active_at trie (seen @ [x])) [0..<length seen])"
    by (rule arg_cong [where f = concat], rule map_cong) (simp_all add: advance_active_at)
  finally show ?thesis
    by (simp add: active_of_def advance_seed del: advance.simps)
qed

lemma emit_active_of:
  "concat (map (emit x) (active_of trie seen @ [((length seen, []), trie)]))
     = emits_of trie (seen @ [x])"
proof -
  have "concat (map (emit x) (active_of trie seen))
          = concat (map (\<lambda>i. concat (map (emit x) (active_at trie seen i))) [0..<length seen])"
    unfolding active_of_def by (rule concat_map_concat_map)
  also have "\<dots> = concat (map (emit_at trie (seen @ [x])) [0..<length seen])"
    by (rule arg_cong [where f = concat], rule map_cong) (simp_all add: emit_active_at)
  finally show ?thesis
    by (simp add: emits_of_def emit_seed del: emit.simps)
qed

lemma all_emits_snoc:
  "all_emits trie (seen @ [x]) = all_emits trie seen @ emits_of trie (seen @ [x])"
proof -
  have m: "map (\<lambda>k. emits_of trie (take (Suc k) (seen @ [x]))) [0..<length seen]
          = map (\<lambda>k. emits_of trie (take (Suc k) seen)) [0..<length seen]"
    by (rule map_cong) simp_all
  have a: "[0..<length (seen @ [x])] = [0..<length seen] @ [length seen]" by simp
  have b: "take (Suc (length seen)) (seen @ [x]) = seen @ [x]" by simp
  show ?thesis
    unfolding all_emits_def a
    by (simp only: map_append concat_append m list.map concat.simps b append_Nil2)
qed

lemma outer_loop_step:
  "outer_loop self [(length seen, x)]
       (active_of (dictionary self) seen, all_emits (dictionary self) seen)
     = (active_of (dictionary self) (seen @ [x]), all_emits (dictionary self) (seen @ [x]))"
  by (simp only: outer_loop.simps inner_loop_eq Let_def prod.case append_Nil
        advance_active_of emit_active_of all_emits_snoc)

lemma outer_loop_eq:
  "outer_loop self (enumerate 0 seen) ([], [])
     = (active_of (dictionary self) seen, all_emits (dictionary self) seen)"
proof (induction seen rule: rev_induct)
  case Nil
  then show ?case by (simp add: active_of_def all_emits_def)
next
  case (snoc x seen)
  have "outer_loop self (enumerate 0 (seen @ [x])) ([], [])
          = outer_loop self [(length seen, x)] (outer_loop self (enumerate 0 seen) ([], []))"
    by (simp add: enumerate_append_eq outer_loop_append)
  then show ?case
    by (simp only: snoc.IH outer_loop_step)
qed

lemma extract_py_eq: "extract_py self tokens = all_emits (dictionary self) tokens"
  by (simp add: extract_py_def outer_loop_eq)

lemma emit_at_eq:
  "emit_at trie seen i = (if flagged trie (drop i seen) then [(i, drop i seen)] else [])"
  by (auto simp: emit_at_def flagged_def split: option.splits)

lemma in_emits_of:
  "(s, m) \<in> set (emits_of trie seen) \<longleftrightarrow> s < length seen \<and> m = drop s seen \<and> flagged trie m"
  by (auto simp: emits_of_def emit_at_eq)

lemma in_all_emits:
  "(s, m) \<in> set (all_emits trie tokens) \<longleftrightarrow>
     (\<exists>k<length tokens. s \<le> k \<and> m = drop s (take (Suc k) tokens) \<and> flagged trie m)"
proof -
  have "(s, m) \<in> set (all_emits trie tokens) \<longleftrightarrow>
          (\<exists>k<length tokens. (s, m) \<in> set (emits_of trie (take (Suc k) tokens)))"
    by (auto simp: all_emits_def)
  moreover have "(s, m) \<in> set (emits_of trie (take (Suc k) tokens)) \<longleftrightarrow>
          s \<le> k \<and> m = drop s (take (Suc k) tokens) \<and> flagged trie m"
    if "k < length tokens" for k
  proof -
    from that have "length (take (Suc k) tokens) = Suc k" by simp
    then show ?thesis unfolding in_emits_of by (simp only: less_Suc_eq_le)
  qed
  ultimately show ?thesis by blast
qed

lemma all_emits_end:
  assumes "(s, m) \<in> set (all_emits trie tokens)"
  shows "m \<noteq> [] \<and> s + length m \<le> length tokens \<and> take (length m) (drop s tokens) = m
         \<and> flagged trie m"
proof -
  from assms obtain k where k: "k < length tokens" "s \<le> k"
    and m: "m = drop s (take (Suc k) tokens)" and f: "flagged trie m"
    unfolding in_all_emits by blast
  from k m have len: "length m = Suc k - s" by simp
  with k have "m \<noteq> []" by auto
  moreover from len k have "s + length m \<le> length tokens" by simp
  moreover have "take (length m) (drop s tokens) = m"
    unfolding len m using k by (simp add: drop_take min_def)
  ultimately show ?thesis using f by simp
qed

lemma all_emits_intro:
  assumes "m \<noteq> []" and "s + length m \<le> length tokens"
    and "take (length m) (drop s tokens) = m" and "flagged trie m"
  shows "(s, m) \<in> set (all_emits trie tokens)"
proof -
  from assms(1) obtain l where l: "length m = Suc l" by (cases m) simp_all
  from l assms(2) have k: "s + l < length tokens" "s \<le> s + l" by simp_all
  have "drop s (take (Suc (s + l)) tokens) = take (length m) (drop s tokens)"
    by (simp add: drop_take l)
  with assms(3) have "m = drop s (take (Suc (s + l)) tokens)" by simp
  with k assms(4) show ?thesis unfolding in_all_emits by blast
qed

lemma sorted_emit_at_prefix:
  "n \<le> length seen \<Longrightarrow> sorted_wrt emitted_before (concat (map (emit_at trie seen) [0..<n]))"
proof (induction n)
  case 0
  then show ?case by simp
next
  case (Suc n)
  have one: "sorted_wrt emitted_before (emit_at trie seen n)"
    by (simp add: emit_at_eq)
  have cross: "emitted_before a b"
    if "a \<in> set (concat (map (emit_at trie seen) [0..<n]))" and "b \<in> set (emit_at trie seen n)"
    for a b
  proof -
    from that(1) obtain j where j: "j < n" and a: "a = (j, drop j seen)"
      by (auto simp: emit_at_eq split: if_splits)
    from that(2) have b: "b = (n, drop n seen)"
      by (auto simp: emit_at_eq split: if_splits)
    from j Suc.prems show ?thesis
      by (simp add: a b emitted_before_def completion_index_def)
  qed
  from Suc one cross show ?case
    by (simp add: sorted_wrt_append)
qed

lemma sorted_emits_of: "sorted_wrt emitted_before (emits_of trie seen)"
  unfolding emits_of_def by (rule sorted_emit_at_prefix) simp

lemma sorted_all_emits: "sorted_wrt emitted_before (all_emits trie tokens)"
proof (induction tokens rule: rev_induct)
  case Nil
  then show ?case by (simp add: all_emits_def)
next
  case (snoc x seen)
  have cross: "emitted_before a b"
    if "a \<in> set (all_emits trie seen)" and "b \<in> set (emits_of trie (seen @ [x]))" for a b
  proof -
    obtain s m where a: "a = (s, m)" by (cases a)
    obtain s' m' where b: "b = (s', m')" by (cases b)
    from that(1) have "s + length m \<le> length seen"
      unfolding a by (rule all_emits_end [THEN conjunct2, THEN conjunct1])
    moreover from that(2) have "s' < length (seen @ [x])" "m' = drop s' (seen @ [x])"
      unfolding b in_emits_of by simp_all
    then have "s' + length m' = Suc (length seen)" by simp
    ultimately show ?thesis
      by (simp add: a b emitted_before_def completion_index_def)
  qed
  from snoc.IH sorted_emits_of cross show ?case
    unfolding all_emits_snoc sorted_wrt_append by blast
qed

section \<open>What the built trie holds\<close>

text \<open>
  A path that ends in a flagged node of the trie built from \<^verbatim>\<open>entries\<close> is, as a list, one of
  the entries, and every path of the trie is a prefix of an entry. For sorted entries the
  converse holds too: \<^const>\<open>groupby\<close> then puts all entries with the same first token into one
  group, so the path of every entry that is a list ends in a flagged node.
\<close>

lemma map_of_fold_update:
  "map_of (fold (\<lambda>(k, v) d. AList.update k v d) ps acc) = map_of acc ++ map_of (rev ps)"
proof (induction ps arbitrary: acc)
  case Nil
  then show ?case by simp
next
  case (Cons p ps)
  obtain k v where p: "p = (k, v)" by (cases p)
  show ?case
    by (rule ext) (simp add: p Cons.IH update_conv' map_add_def split: option.splits)
qed

lemma map_of_dict_of_pairs: "map_of (dict_of_pairs ps) = map_of (rev ps)"
  by (simp add: dict_of_pairs_def map_of_fold_update)

lemma get_build_trie:
  "get (snd (build_trie es)) x
     = map_of (rev (map (\<lambda>(head, tails). (head, build_trie (map slice1 tails)))
                        (groupby (\<lambda>x. hd (items x)) (filter truthy es)))) x"
  by (subst build_trie.simps) (simp add: get_def map_of_dict_of_pairs)

lemma fst_build_trie: "fst (build_trie es) = (PyList [] \<in> set es)"
  by (subst build_trie.simps) simp

lemma get_build_trie_SomeD:
  assumes "get (snd (build_trie es)) x = Some node"
  shows "\<exists>tails. (x, tails) \<in> set (groupby (\<lambda>x. hd (items x)) (filter truthy es))
                 \<and> node = build_trie (map slice1 tails)"
proof -
  from assms have "(x, node) \<in> set (rev (map (\<lambda>(head, tails). (head, build_trie (map slice1 tails)))
                        (groupby (\<lambda>x. hd (items x)) (filter truthy es))))"
    unfolding get_build_trie by (rule map_of_SomeD)
  then show ?thesis by auto
qed

lemma group_member:
  assumes "(x, tails) \<in> set (groupby (\<lambda>x. hd (items x)) (filter truthy es))" and "t \<in> set tails"
  shows "t \<in> set es \<and> items t = x # tl (items t)"
proof -
  from groupby_nonempty [OF assms(1)] assms(2) have "t \<in> set (filter truthy es)" by blast
  then have t: "t \<in> set es" "items t \<noteq> []" by simp_all
  from groupby_key [OF assms] have "hd (items t) = x" .
  with t show ?thesis by (cases "items t") simp_all
qed

lemma slice1_PyList: "slice1 t = PyList p \<Longrightarrow> t = PyList (items t)"
  by (cases t) simp_all

lemma walk_build_trie_sound:
  "walk (build_trie es) p = Some (b, d) \<Longrightarrow>
     (b \<longrightarrow> PyList p \<in> set es) \<and> (p \<noteq> [] \<longrightarrow> (\<exists>e\<in>set es. prefix p (items e)))"
proof (induction p arbitrary: es)
  case Nil
  then have "fst (build_trie es) = b" by simp
  then show ?case by (simp add: fst_build_trie)
next
  case (Cons x p)
  from Cons.prems obtain node where g: "get (snd (build_trie es)) x = Some node"
    and w: "walk node p = Some (b, d)"
    by (auto split: option.splits)
  from get_build_trie_SomeD [OF g] obtain tails
    where mem: "(x, tails) \<in> set (groupby (\<lambda>x. hd (items x)) (filter truthy es))"
      and node: "node = build_trie (map slice1 tails)"
    by blast
  from w have "walk (build_trie (map slice1 tails)) p = Some (b, d)" by (simp only: node)
  from Cons.IH [OF this]
  have ih1: "b \<Longrightarrow> PyList p \<in> set (map slice1 tails)"
    and ih2: "p \<noteq> [] \<Longrightarrow> \<exists>e\<in>set (map slice1 tails). prefix p (items e)"
    by blast+
  have flag: "PyList (x # p) \<in> set es" if b
  proof -
    from ih1 [OF that] obtain t where t: "t \<in> set tails" and s: "slice1 t = PyList p" by auto
    from group_member [OF mem t] have tes: "t \<in> set es" and it: "items t = x # tl (items t)"
      by simp_all
    from s have "tl (items t) = p" by (cases t) simp_all
    with it have "items t = x # p" by simp
    with slice1_PyList [OF s] have "t = PyList (x # p)" by simp
    with tes show ?thesis by simp
  qed
  have pre: "\<exists>e\<in>set es. prefix (x # p) (items e)"
  proof (cases "p = []")
    case True
    from groupby_nonempty [OF mem] obtain t where t: "t \<in> set tails" by (cases tails) auto
    from group_member [OF mem t] have "t \<in> set es" and "items t = x # tl (items t)"
      by simp_all
    then have "t \<in> set es" and "prefix [x] (items t)"
      by simp_all (metis Cons_prefix_Cons Nil_prefix)
    with True show ?thesis by blast
  next
    case False
    from ih2 [OF False] obtain t where t: "t \<in> set tails" and pr: "prefix p (items (slice1 t))"
      by auto
    from group_member [OF mem t] have tes: "t \<in> set es" and it: "items t = x # tl (items t)"
      by simp_all
    from pr have "prefix (x # p) (x # tl (items t))" by simp
    with it have "prefix (x # p) (items t)" by simp
    with tes show ?thesis by blast
  qed
  from flag pre show ?case by blast
qed

lemma sorted_dropWhile_key:
  fixes key :: "'a \<Rightarrow> 'k::linorder"
  assumes "sorted (map key (x # xs))" and "y \<in> set (dropWhile (\<lambda>y. key y = key x) xs)"
  shows "key y \<noteq> key x"
proof
  let ?P = "\<lambda>y. key y = key x"
  assume eq: "key y = key x"
  have ne: "dropWhile ?P xs \<noteq> []"
  proof
    assume "dropWhile ?P xs = []"
    with assms(2) show False by simp
  qed
  then obtain d ds where dw: "dropWhile ?P xs = d # ds" by (cases "dropWhile ?P xs") auto
  from hd_dropWhile [OF ne] dw have nd: "key d \<noteq> key x" by simp
  have "d \<in> set xs" using dw set_dropWhileD [of d ?P xs] by simp
  with assms(1) have le1: "key x \<le> key d" by auto
  have "takeWhile ?P xs @ dropWhile ?P xs = xs" by (rule takeWhile_dropWhile_id)
  then have "map key xs = map key (takeWhile ?P xs) @ key d # map key ds"
    unfolding dw by (metis list.simps(9) map_append)
  with assms(1) have "sorted (key d # map key ds)" by (simp add: sorted_append)
  moreover from assms(2) dw have "y = d \<or> y \<in> set ds" by simp
  ultimately have "key d \<le> key y" by auto
  with eq le1 nd show False by simp
qed

lemma map_of_groupby_sorted:
  fixes key :: "'a \<Rightarrow> 'k::linorder"
  assumes "sorted (map key xs)"
  shows "map_of (rev (map (\<lambda>(h, ts). (h, F ts)) (groupby key xs))) k
           = (if k \<in> key ` set xs then Some (F (filter (\<lambda>y. key y = k) xs)) else None)"
  using assms
proof (induction key xs rule: groupby.induct)
  case (1 key)
  then show ?case by simp
next
  case (2 key x xs)
  let ?P = "\<lambda>y. key y = key x"
  let ?tw = "takeWhile ?P xs"
  let ?dw = "dropWhile ?P xs"
  have xs: "?tw @ ?dw = xs" by simp
  from "2.prems" have "sorted (map key xs)" by simp
  then have "sorted (map key (?tw @ ?dw))" by (simp only: xs)
  then have sdw: "sorted (map key ?dw)" unfolding map_append sorted_append by blast
  note IH = "2.IH" [OF sdw]
  have tw: "\<forall>y\<in>set ?tw. key y = key x"
  proof
    fix y assume "y \<in> set ?tw"
    from set_takeWhileD [OF this] show "key y = key x" by simp
  qed
  have dw: "\<forall>y\<in>set ?dw. \<not> key y = key x"
  proof
    fix y assume "y \<in> set ?dw"
    from sorted_dropWhile_key [OF "2.prems" this] show "\<not> key y = key x" .
  qed
  have sets: "set xs = set ?tw \<union> set ?dw"
    using set_append [of ?tw ?dw] unfolding xs .
  have image: "key ` set (x # xs) = insert (key x) (key ` set ?dw)"
  proof -
    have "key ` set ?tw \<subseteq> {key x}" using tw by (metis image_subsetI singletonI)
    moreover have "key ` set (x # xs) = insert (key x) (key ` set ?tw \<union> key ` set ?dw)"
      by (simp only: list.set sets image_insert image_Un)
    ultimately show ?thesis by auto
  qed
  have lhs: "map_of (rev (map (\<lambda>(h, ts). (h, F ts)) (groupby key (x # xs)))) k
      = (case map_of (rev (map (\<lambda>(h, ts). (h, F ts)) (groupby key ?dw))) k of
           None \<Rightarrow> if k = key x then Some (F (x # ?tw)) else None
         | Some v \<Rightarrow> Some v)"
    by (simp add: map_add_def split: option.splits)
  have filt: "filter Q xs = filter Q ?tw @ filter Q ?dw" for Q
    using filter_append [of Q ?tw ?dw] unfolding xs .
  show ?case
  proof (cases "k = key x")
    case True
    have "filter (\<lambda>y. key y = key x) ?tw = ?tw" using tw by (rule filter_True)
    moreover have "filter (\<lambda>y. key y = key x) ?dw = []" using dw by (rule filter_False)
    ultimately have f: "filter (\<lambda>y. key y = key x) xs = ?tw"
      by (simp only: filt append_Nil2)
    have n: "key x \<notin> key ` set ?dw" using dw by (metis imageE)
    show ?thesis
      unfolding lhs IH image by (simp add: True f n)
  next
    case False
    have "\<forall>y\<in>set ?tw. \<not> key y = k" using tw False by metis
    then have "filter (\<lambda>y. key y = k) ?tw = []" by (rule filter_False)
    then have f: "filter (\<lambda>y. key y = k) xs = filter (\<lambda>y. key y = k) ?dw"
      by (simp only: filt append_Nil)
    from False have g: "filter (\<lambda>y. key y = k) (x # xs) = filter (\<lambda>y. key y = k) ?dw"
      by (simp add: f)
    from False have m: "k \<in> insert (key x) (key ` set ?dw) \<longleftrightarrow> k \<in> key ` set ?dw"
      by blast
    show ?thesis
      unfolding lhs IH image g m using False by (simp split: if_splits)
  qed
qed

lemma sorted_heads:
  assumes "sorted (map items es)"
  shows "sorted (map (\<lambda>e. hd (items e)) (filter truthy es))"
proof -
  from assms have "sorted_wrt (\<lambda>a b. items a \<le> items b) es" by (simp add: sorted_map)
  then have "sorted_wrt (\<lambda>a b. items a \<le> items b) (filter truthy es)"
    by (rule sorted_wrt_filter)
  moreover have "hd (items a) \<le> hd (items b)"
    if "a \<in> set (filter truthy es)" "b \<in> set (filter truthy es)" "items a \<le> items b" for a b
  proof -
    from that(1,2) obtain a1 as b1 bs where "items a = a1 # as" "items b = b1 # bs"
      by (cases "items a"; cases "items b") auto
    with that(3) show ?thesis by auto
  qed
  ultimately have "sorted_wrt (\<lambda>a b. hd (items a) \<le> hd (items b)) (filter truthy es)"
    by (rule sorted_wrt_mono_rel [rotated])
  then show ?thesis by (simp add: sorted_map)
qed

lemma sorted_tails:
  assumes "sorted (map items es)"
  shows "sorted (map items (map slice1 (filter (\<lambda>e. hd (items e) = x) (filter truthy es))))"
proof -
  let ?G = "filter (\<lambda>e. hd (items e) = x) (filter truthy es)"
  from assms have "sorted_wrt (\<lambda>a b. items a \<le> items b) es" by (simp add: sorted_map)
  then have "sorted_wrt (\<lambda>a b. items a \<le> items b) ?G"
    by (intro sorted_wrt_filter)
  moreover have "items (slice1 a) \<le> items (slice1 b)"
    if "a \<in> set ?G" "b \<in> set ?G" "items a \<le> items b" for a b
  proof -
    from that(1,2) obtain as bs where "items a = x # as" "items b = x # bs"
      by (cases "items a"; cases "items b") auto
    with that(3) show ?thesis by simp
  qed
  ultimately have "sorted_wrt (\<lambda>a b. items (slice1 a) \<le> items (slice1 b)) ?G"
    by (rule sorted_wrt_mono_rel [rotated])
  then show ?thesis by (simp add: sorted_map del: items_slice1)
qed

lemma get_build_trie_sorted:
  assumes "sorted (map items es)"
  shows "get (snd (build_trie es)) x
           = (if \<exists>e\<in>set es. truthy e \<and> hd (items e) = x
              then Some (build_trie (map slice1
                     (filter (\<lambda>e. hd (items e) = x) (filter truthy es))))
              else None)"
proof -
  have "get (snd (build_trie es)) x
          = (if x \<in> (\<lambda>e. hd (items e)) ` set (filter truthy es)
             then Some (build_trie (map slice1
                     (filter (\<lambda>e. hd (items e) = x) (filter truthy es))))
             else None)"
    unfolding get_build_trie
    using map_of_groupby_sorted [OF sorted_heads [OF assms],
            where F = "\<lambda>ts. build_trie (map slice1 ts)" and k = x]
    by simp
  moreover have "x \<in> (\<lambda>e. hd (items e)) ` set (filter truthy es)
                   \<longleftrightarrow> (\<exists>e\<in>set es. truthy e \<and> hd (items e) = x)"
    by auto
  ultimately show ?thesis by (simp only:)
qed

lemma walk_build_trie_complete:
  "sorted (map items es) \<Longrightarrow> PyList p \<in> set es \<Longrightarrow> \<exists>d. walk (build_trie es) p = Some (True, d)"
proof (induction p arbitrary: es)
  case Nil
  then have "fst (build_trie es)" by (simp add: fst_build_trie)
  then show ?case by (cases "build_trie es") simp
next
  case (Cons x p)
  let ?es' = "map slice1 (filter (\<lambda>e. hd (items e) = x) (filter truthy es))"
  from Cons.prems(2) have ex: "\<exists>e\<in>set es. truthy e \<and> hd (items e) = x"
    by (intro bexI [of _ "PyList (x # p)"]) simp_all
  have g: "get (snd (build_trie es)) x = Some (build_trie ?es')"
    unfolding get_build_trie_sorted [OF Cons.prems(1)] using ex by (simp only: if_True)
  from Cons.prems(2)
  have "PyList (x # p) \<in> set (filter (\<lambda>e. hd (items e) = x) (filter truthy es))"
    by simp
  then have "slice1 (PyList (x # p)) \<in> slice1 ` set (filter (\<lambda>e. hd (items e) = x) (filter truthy es))"
    by (rule imageI)
  then have "PyList p \<in> set ?es'" by simp
  from Cons.IH [OF sorted_tails [OF Cons.prems(1)] this]
  obtain d where "walk (build_trie ?es') p = Some (True, d)" by blast
  with g show ?case by simp
qed

lemma walk_root_flag: "p \<noteq> [] \<Longrightarrow> walk (b, d) p = walk (b', d) p"
  by (cases p) simp_all

lemma walk_to_build_trie:
  "p \<noteq> [] \<Longrightarrow> walk (False, snd (build_trie es)) p = walk (build_trie es) p"
  using walk_root_flag [of p False "snd (build_trie es)" "fst (build_trie es)"] by simp

lemma flagged_Nil: "\<not> flagged trie []"
  by (simp add: flagged_def)

lemma flagged_build_trie_sound:
  assumes "flagged (snd (build_trie es)) p"
  shows "p \<noteq> [] \<and> PyList p \<in> set es"
proof -
  from assms have ne: "p \<noteq> []" using flagged_Nil by blast
  from assms obtain d where "walk (False, snd (build_trie es)) p = Some (True, d)"
    by (auto simp: flagged_def split: option.splits)
  with ne have "walk (build_trie es) p = Some (True, d)" by (simp add: walk_to_build_trie)
  from walk_build_trie_sound [OF this] ne show ?thesis by simp
qed

lemma flagged_build_trie_sorted:
  assumes "sorted (map items es)"
  shows "flagged (snd (build_trie es)) p \<longleftrightarrow> p \<noteq> [] \<and> PyList p \<in> set es"
proof
  assume "flagged (snd (build_trie es)) p"
  then show "p \<noteq> [] \<and> PyList p \<in> set es" by (rule flagged_build_trie_sound)
next
  assume a: "p \<noteq> [] \<and> PyList p \<in> set es"
  with walk_build_trie_complete [OF assms, of p] obtain d
    where "walk (build_trie es) p = Some (True, d)" by blast
  with a have "walk (False, snd (build_trie es)) p = Some (True, d)"
    by (simp add: walk_to_build_trie)
  then show "flagged (snd (build_trie es)) p" by (simp add: flagged_def)
qed

lemma comparable_cong: "set xs = set ys \<Longrightarrow> comparable xs = comparable ys"
  by (simp add: comparable_def)

lemma comparable_tuples: "\<forall>c\<in>set D. is_tuple c \<Longrightarrow> comparable D"
  by (simp add: comparable_def)


lemma comparable_lists: "\<forall>c\<in>set D. \<not> is_tuple c \<Longrightarrow> comparable D"
  by (simp add: comparable_def)

lemma to_trie_Inr:
  "to_trie D = Inr trie \<longleftrightarrow> comparable D \<and> trie = snd (build_trie (sort_key items D))"
  by (cases "comparable D") (auto simp: to_trie_def sorted_py_def)

lemma init_Inr:
  "init D = Inr self \<longleftrightarrow>
     comparable D \<and> self = \<lparr>dictionary = snd (build_trie (sort_key items D))\<rparr>"
  by (cases "comparable D") (auto simp: init_def to_trie_def sorted_py_def)

lemma init_Inl: "init D = Inl e \<longleftrightarrow> \<not> comparable D"
  by (cases e; cases "comparable D") (simp_all add: init_def to_trie_def sorted_py_def)

text \<open>The constructor returns for every dictionary of tuples, and for every dictionary of lists.\<close>

lemma to_trie_returns: "comparable D \<Longrightarrow> \<exists>trie. to_trie D = Inr trie"
  by (simp add: to_trie_Inr)

lemma init_returns: "comparable D \<Longrightarrow> \<exists>self. init D = Inr self"
  by (simp add: init_Inr)

lemma flagged_init:
  assumes "init D = Inr self"
  shows "flagged (dictionary self) p \<longleftrightarrow> p \<noteq> [] \<and> PyList p \<in> set D"
proof -
  from assms have d: "dictionary self = snd (build_trie (sort_key items D))"
    by (simp add: init_Inr)
  have "sorted (map items (sort_key items D))" by simp
  from flagged_build_trie_sorted [OF this, of p] show ?thesis
    unfolding d by simp
qed

lemma all_emits_cong:
  assumes "\<And>p. flagged t1 p = flagged t2 p"
  shows "all_emits t1 tokens = all_emits t2 tokens"
proof -
  have "emit_at t1 seen i = emit_at t2 seen i" for seen i
    by (simp add: emit_at_eq assms)
  then have "emit_at t1 seen = emit_at t2 seen" for seen by (rule ext)
  then show ?thesis by (simp add: all_emits_def emits_of_def)
qed

section \<open>The active matches\<close>

text \<open>
  The tokens of an active match are a path of the trie, hence a prefix of a concept; the
  match that started at index \<^verbatim>\<open>i\<close> has seen all tokens from \<^verbatim>\<open>i\<close> on, so only the last few start
  indices can still be active.
\<close>

lemma max_concept_length_ge: "c \<in> set D \<Longrightarrow> length (items c) \<le> max_concept_length D"
  by (induction D) (auto simp: max_concept_length_def)

lemma take_enumerate: "take k (enumerate n xs) = enumerate n (take k xs)"
proof (induction xs arbitrary: k n)
  case Nil
  then show ?case by simp
next
  case (Cons x xs)
  then show ?case by (cases k) simp_all
qed

lemma state_after_eq:
  "state_after self tokens k
     = (active_of (dictionary self) (take k tokens), all_emits (dictionary self) (take k tokens))"
  by (simp only: state_after_def take_enumerate outer_loop_eq)

lemma starts_concat_active_at:
  "map (\<lambda>a. fst (fst a)) (concat (map (active_at trie seen) xs))
     = filter (\<lambda>i. walk (False, trie) (drop i seen) \<noteq> None) xs"
  by (induction xs) (auto simp: active_at_def split: option.splits)

lemma starts_active_of:
  "map (\<lambda>a. fst (fst a)) (active_of trie seen)
     = filter (\<lambda>i. walk (False, trie) (drop i seen) \<noteq> None) [0..<length seen]"
  unfolding active_of_def by (rule starts_concat_active_at)

lemma in_active_of:
  assumes "((start, match), pointer) \<in> set (active_of trie seen)"
  shows "start < length seen \<and> match = drop start seen
         \<and> (\<exists>b. walk (False, trie) match = Some (b, pointer))"
proof -
  from assms obtain i where i: "i < length seen"
    and m: "((start, match), pointer) \<in> set (active_at trie seen i)"
    by (auto simp: active_of_def)
  show ?thesis
  proof (cases "walk (False, trie) (drop i seen)")
    case None
    with m show ?thesis by (simp add: active_at_def)
  next
    case (Some node)
    obtain b ptr where node: "node = (b, ptr)" by (cases node)
    from m have "start = i" "match = drop i seen" "pointer = ptr"
      by (simp_all add: active_at_def Some node)
    with i Some node show ?thesis by simp
  qed
qed

lemma length_filter_upt_window:
  assumes "\<And>i. i < n \<Longrightarrow> Q i \<Longrightarrow> n - i \<le> L"
  shows "length (filter Q [0..<n]) \<le> L"
proof -
  have "{i. i < n \<and> Q ([0..<n] ! i)} = {i. i < n \<and> Q i}"
    by auto
  then have "length (filter Q [0..<n]) = card {i. i < n \<and> Q i}"
    by (simp add: length_filter_conv_card)
  also have "{i. i < n \<and> Q i} \<subseteq> {n - L..<n}"
    using assms by force
  then have "card {i. i < n \<and> Q i} \<le> card {n - L..<n}"
    by (intro card_mono) simp_all
  also have "\<dots> \<le> L" by simp
  finally show ?thesis .
qed

lemma walk_depth:
  assumes "init D = Inr self" and "walk (False, dictionary self) p = Some node" and "p \<noteq> []"
  shows "length p \<le> max_concept_length D"
proof -
  from assms(1) have d: "dictionary self = snd (build_trie (sort_key items D))"
    by (simp add: init_Inr)
  obtain b ptr where node: "node = (b, ptr)" by (cases node)
  from assms(2,3) have "walk (build_trie (sort_key items D)) p = Some (b, ptr)"
    by (simp add: d node walk_to_build_trie)
  from walk_build_trie_sound [OF this] assms(3)
  obtain e where e: "e \<in> set D" and pre: "prefix p (items e)" by auto
  from pre have "length p \<le> length (items e)" by (rule prefix_length_le)
  also from e have "\<dots> \<le> max_concept_length D" by (rule max_concept_length_ge)
  finally show ?thesis .
qed

lemma active_of_bounded:
  assumes "init D = Inr self"
  shows "length (active_of (dictionary self) seen) \<le> max_concept_length D"
proof -
  let ?Q = "\<lambda>i. walk (False, dictionary self) (drop i seen) \<noteq> None"
  have "length (active_of (dictionary self) seen)
          = length (map (\<lambda>a. fst (fst a)) (active_of (dictionary self) seen))"
    by simp
  also have "\<dots> = length (filter ?Q [0..<length seen])"
    by (simp only: starts_active_of)
  also have "\<dots> \<le> max_concept_length D"
  proof (rule length_filter_upt_window)
    fix i assume i: "i < length seen" and q: "?Q i"
    from q obtain node where "walk (False, dictionary self) (drop i seen) = Some node" by blast
    moreover from i have "drop i seen \<noteq> []" by simp
    ultimately have "length (drop i seen) \<le> max_concept_length D"
      by (rule walk_depth [OF assms])
    then show "length seen - i \<le> max_concept_length D" by simp
  qed
  finally show ?thesis .
qed

section \<open>Concrete runs\<close>

text \<open>Tries built from small sorted dictionaries, of tuples and of lists.\<close>

lemma build_trie_tuple_cat:
  "build_trie [PyTuple [''cat'']] = (False, PyDict [(''cat'', False, PyDict [])])"
  by (subst build_trie.simps, simp add: dict_of_pairs_def)+

lemma build_trie_tuple_cat_nap:
  "build_trie [PyTuple [''cat''], PyTuple [''cat'', ''nap'']]
     = (False, PyDict [(''cat'', False, PyDict [(''nap'', False, PyDict [])])])"
  by (subst build_trie.simps, simp add: dict_of_pairs_def)+

lemma build_trie_list_cat:
  "build_trie [PyList [''cat'']] = (False, PyDict [(''cat'', True, PyDict [])])"
  by (subst build_trie.simps, simp add: dict_of_pairs_def)+

lemma build_trie_list_empty_cat:
  "build_trie [PyList [], PyList [''cat'']] = (True, PyDict [(''cat'', True, PyDict [])])"
  by (subst build_trie.simps, simp add: dict_of_pairs_def)+

lemma build_trie_list_cat_nap:
  "build_trie [PyList [''cat''], PyList [''cat'', ''nap'']]
     = (False, PyDict [(''cat'', True, PyDict [(''nap'', True, PyDict [])])])"
  by (subst build_trie.simps, simp add: dict_of_pairs_def)+

lemma build_trie_list_catnap:
  "build_trie [PyList [''cat'', ''nap'']]
     = (False, PyDict [(''cat'', False, PyDict [(''nap'', True, PyDict [])])])"
  by (subst build_trie.simps, simp add: dict_of_pairs_def)+

lemma sorted_py_tuple_cat_nap:
  "sorted_py [PyTuple [''cat'', ''nap''], PyTuple [''cat'']]
     = Inr [PyTuple [''cat''], PyTuple [''cat'', ''nap'']]"
  by code_simp

lemma sorted_py_list_cat_nap:
  "sorted_py [PyList [''cat'', ''nap''], PyList [''cat'']]
     = Inr [PyList [''cat''], PyList [''cat'', ''nap'']]"
  by code_simp

lemma sorted_py_list_empty_cat:
  "sorted_py [PyList [''cat''], PyList []] = Inr [PyList [], PyList [''cat'']]"
  by code_simp

lemma sorted_py_single: "sorted_py [c] = Inr [c]"
  by (simp add: sorted_py_def comparable_def)

lemma init_tuple_cat:
  "init [PyTuple [''cat'']] = Inr \<lparr>dictionary = PyDict [(''cat'', False, PyDict [])]\<rparr>"
  by (simp add: init_def to_trie_def sorted_py_single build_trie_tuple_cat)

lemma init_tuple_cat_nap:
  "init [PyTuple [''cat'', ''nap''], PyTuple [''cat'']]
     = Inr \<lparr>dictionary = PyDict [(''cat'', False, PyDict [(''nap'', False, PyDict [])])]\<rparr>"
  by (simp add: init_def to_trie_def sorted_py_tuple_cat_nap build_trie_tuple_cat_nap)

lemma init_list_cat:
  "init [PyList [''cat'']] = Inr \<lparr>dictionary = PyDict [(''cat'', True, PyDict [])]\<rparr>"
  by (simp add: init_def to_trie_def sorted_py_single build_trie_list_cat)

lemma init_list_empty_cat:
  "init [PyList [''cat''], PyList []]
     = Inr \<lparr>dictionary = PyDict [(''cat'', True, PyDict [])]\<rparr>"
  by (simp add: init_def to_trie_def sorted_py_list_empty_cat build_trie_list_empty_cat)

lemma init_list_cat_nap:
  "init [PyList [''cat'', ''nap''], PyList [''cat'']]
     = Inr \<lparr>dictionary = PyDict [(''cat'', True, PyDict [(''nap'', True, PyDict [])])]\<rparr>"
  by (simp add: init_def to_trie_def sorted_py_list_cat_nap build_trie_list_cat_nap)

lemma init_list_catnap:
  "init [PyList [''cat'', ''nap'']]
     = Inr \<lparr>dictionary = PyDict [(''cat'', False, PyDict [(''nap'', True, PyDict [])])]\<rparr>"
  by (simp add: init_def to_trie_def sorted_py_single build_trie_list_catnap)

lemma extract_py_list_cat:
  "extract_py \<lparr>dictionary = PyDict [(''cat'', True, PyDict [])]\<rparr> [''cat''] = [(0, [''cat''])]"
  by code_simp

text \<open>The example of overlapping concepts, with the concepts given as lists.\<close>

lemma nested_overlap_with_lists:
  "extract_py \<lparr>dictionary = PyDict [(''cat'', True, PyDict [(''nap'', True, PyDict [])])]\<rparr>
       [''cat'', ''nap'']
     = [(0, [''cat'']), (0, [''cat'', ''nap''])]"
  by code_simp

section \<open>Every occurrence of a list concept is yielded once\<close>

lemma sorted_wrt_irrefl_distinct:
  "sorted_wrt R xs \<Longrightarrow> (\<And>x. \<not> R x x) \<Longrightarrow> distinct xs"
  by (induction xs) auto

lemma count_list_distinct: "distinct xs \<Longrightarrow> x \<in> set xs \<Longrightarrow> count_list xs x = 1"
  by (induction xs) (auto simp: count_list_0_iff)

lemma distinct_all_emits: "distinct (all_emits trie tokens)"
proof (rule sorted_wrt_irrefl_distinct)
  show "sorted_wrt emitted_before (all_emits trie tokens)" by (rule sorted_all_emits)
  show "\<not> emitted_before x x" for x by (simp add: emitted_before_def)
qed

lemma extract_complete_for_lists:
  assumes "init D = Inr self" and "PyList c \<in> set D" and "c \<noteq> []"
    and "slice S i (i + length c) = c"
  shows "count_list (extract_py self S) (i, c) = 1"
proof -
  from assms(4) have tk: "take (length c) (drop i S) = c" by (simp add: slice_def)
  have "length (take (length c) (drop i S)) = length c" by (simp only: tk)
  then have "length c \<le> length S - i" by (simp add: min_def split: if_splits)
  with assms(3) have le: "i + length c \<le> length S" by (cases c) simp_all
  from assms(2,3) have "flagged (dictionary self) c" by (simp add: flagged_init [OF assms(1)])
  with assms(3) le tk have "(i, c) \<in> set (all_emits (dictionary self) S)"
    by (intro all_emits_intro)
  with distinct_all_emits show ?thesis
    unfolding extract_py_eq by (rule count_list_distinct)
qed

section \<open>The properties\<close>

text \<open>
  C1. Completeness: every occurrence of a non-empty concept of the dictionary in the token
  stream is yielded exactly once. The code does not do this for a dictionary of tuples, the
  type its signature declares: the dictionary \<^verbatim>\<open>[("cat",)]\<close> builds a trie whose only node is not
  flagged, and on the stream \<^verbatim>\<open>["cat"]\<close>, where the concept occurs at index 0, nothing is yielded.
  (For concepts given as lists the property holds: \<open>extract_complete_for_lists\<close>.)
\<close>

theorem completeness_fails_for_tuples:
  "init [PyTuple [''cat'']] = Inr \<lparr>dictionary = PyDict [(''cat'', False, PyDict [])]\<rparr>
   \<and> slice [''cat''] 0 (0 + length [''cat'']) = [''cat'']
   \<and> extract_py \<lparr>dictionary = PyDict [(''cat'', False, PyDict [])]\<rparr> [''cat''] = []"
proof -
  have "slice [''cat''] 0 (0 + length [''cat'']) = [''cat'']" by (simp add: slice_def)
  moreover have "extract_py \<lparr>dictionary = PyDict [(''cat'', False, PyDict [])]\<rparr> [''cat''] = []"
    by code_simp
  ultimately show ?thesis using init_tuple_cat by (intro conjI)
qed

text \<open>
  C2. Soundness: every pair \<^verbatim>\<open>(start, tokens)\<close> that \<^verbatim>\<open>extract\<close> yields is a concept of the
  dictionary (the yielded list of tokens is itself an element of the dictionary), and it is
  the slice of the stream that starts at \<^verbatim>\<open>start\<close>.
\<close>

theorem extract_sound:
  assumes "init D = Inr self" and "(start, toks) \<in> set (extract_py self S)"
  shows "PyList toks \<in> set D \<and> slice S start (start + length toks) = toks"
proof -
  from assms(2) have "(start, toks) \<in> set (all_emits (dictionary self) S)"
    by (simp only: extract_py_eq)
  from all_emits_end [OF this]
  have "take (length toks) (drop start S) = toks" and "flagged (dictionary self) toks"
    by simp_all
  with flagged_init [OF assms(1), of toks] show ?thesis by (simp add: slice_def)
qed

theorem extract_sound_witness:
  "init [PyList [''cat'']] = Inr \<lparr>dictionary = PyDict [(''cat'', True, PyDict [])]\<rparr>
   \<and> (0, [''cat'']) \<in> set (extract_py \<lparr>dictionary = PyDict [(''cat'', True, PyDict [])]\<rparr> [''cat''])
   \<and> PyList [''cat''] \<in> set [PyList [''cat'']]
   \<and> slice [''cat''] 0 (0 + length [''cat'']) = [''cat'']"
proof -
  have m: "(0, [''cat'']) \<in> set (extract_py \<lparr>dictionary = PyDict [(''cat'', True, PyDict [])]\<rparr> [''cat''])"
    by (simp add: extract_py_list_cat)
  from extract_sound [OF init_list_cat m] init_list_cat m show ?thesis by (intro conjI) simp_all
qed

text \<open>
  C3. Ordering: the pairs are yielded in non-decreasing order of completion index, and pairs
  with the same completion index in ascending order of start index. This holds for every
  trie, so for the trie of every dictionary.
\<close>

theorem extract_ordered: "sorted_wrt emitted_before (extract_py self tokens)"
  unfolding extract_py_eq by (rule sorted_all_emits)

text \<open>
  C4. Contract of the trie builder: the path of every input concept ends in a node whose flag
  is true, and every flagged node is the end of the path of one input concept. The code does
  not do this for a dictionary of tuples: for \<^verbatim>\<open>[("cat",)]\<close> the path \<^verbatim>\<open>"cat"\<close> ends in a node whose
  flag is false.
\<close>

theorem concept_end_unflagged_for_tuples:
  "to_trie [PyTuple [''cat'']] = Inr (PyDict [(''cat'', False, PyDict [])])
   \<and> walk (build_trie [PyTuple [''cat'']]) [''cat''] = Some (False, PyDict [])"
  by (simp add: to_trie_def sorted_py_single build_trie_tuple_cat get_def)

text \<open>
  C5. The example of nested overlapping concepts: with the dictionary
  \<^verbatim>\<open>{("cat",), ("cat","nap")}\<close> and the stream \<^verbatim>\<open>["cat","nap"]\<close>, \<^verbatim>\<open>extract\<close> is to yield
  \<^verbatim>\<open>(0, ["cat"])\<close> and then \<^verbatim>\<open>(0, ["cat","nap"])\<close>. On these tuples the code yields nothing.
  (With the two concepts given as lists it yields both pairs: \<open>nested_overlap_with_lists\<close>.)
\<close>

theorem nested_overlap_example_yields_nothing:
  "init [PyTuple [''cat'', ''nap''], PyTuple [''cat'']]
     = Inr \<lparr>dictionary = PyDict [(''cat'', False, PyDict [(''nap'', False, PyDict [])])]\<rparr>
   \<and> extract_py \<lparr>dictionary = PyDict [(''cat'', False, PyDict [(''nap'', False, PyDict [])])]\<rparr>
         [''cat'', ''nap''] = []"
proof -
  have "extract_py \<lparr>dictionary = PyDict [(''cat'', False, PyDict [(''nap'', False, PyDict [])])]\<rparr>
         [''cat'', ''nap''] = []"
    by code_simp
  with init_tuple_cat_nap show ?thesis by (intro conjI)
qed

text \<open>
  C6. No match of length zero is yielded, whatever the dictionary holds (the empty concept
  included): every yielded pair has at least one token, and it ends within the stream.
\<close>

theorem extract_nonempty:
  assumes "(start, toks) \<in> set (extract_py self tokens)"
  shows "1 \<le> length toks \<and> start + length toks \<le> length tokens"
proof -
  from assms have "(start, toks) \<in> set (all_emits (dictionary self) tokens)"
    by (simp only: extract_py_eq)
  from all_emits_end [OF this] have "toks \<noteq> []" and "start + length toks \<le> length tokens"
    by simp_all
  then show ?thesis by (cases toks) simp_all
qed

theorem extract_nonempty_witness:
  "init [PyList [''cat''], PyList []]
     = Inr \<lparr>dictionary = PyDict [(''cat'', True, PyDict [])]\<rparr>
   \<and> extract_py \<lparr>dictionary = PyDict [(''cat'', True, PyDict [])]\<rparr> [''cat''] = [(0, [''cat''])]
   \<and> 1 \<le> length [''cat''] \<and> 0 + length [''cat''] \<le> length [''cat'']"
proof -
  have m: "(0, [''cat'']) \<in> set (extract_py \<lparr>dictionary = PyDict [(''cat'', True, PyDict [])]\<rparr> [''cat''])"
    by (simp add: extract_py_list_cat)
  from extract_nonempty [OF m] init_list_empty_cat extract_py_list_cat show ?thesis
    by (intro conjI) simp_all
qed

text \<open>
  C7. Construction does not depend on the order of the input or on repeated entries: two
  collections with the same set of concepts give the same extraction output on every token
  stream (and \<^verbatim>\<open>sorted\<close> raises for both or for neither).
\<close>

theorem extract_order_insensitive:
  assumes "set D1 = set D2"
  shows "map_sum id (\<lambda>self. extract_py self S) (init D1)
           = map_sum id (\<lambda>self. extract_py self S) (init D2)"
proof (cases "comparable D1")
  case True
  then obtain s1 where s1: "init D1 = Inr s1" by (simp add: init_Inr)
  from True comparable_cong [OF assms] obtain s2 where s2: "init D2 = Inr s2"
    by (simp add: init_Inr)
  have "flagged (dictionary s1) p = flagged (dictionary s2) p" for p
    unfolding flagged_init [OF s1] flagged_init [OF s2] assms ..
  then have "all_emits (dictionary s1) S = all_emits (dictionary s2) S"
    by (rule all_emits_cong)
  then show ?thesis by (simp add: s1 s2 extract_py_eq)
next
  case False
  then have "init D1 = Inl TypeError" by (simp add: init_Inl)
  moreover from False comparable_cong [OF assms] have "init D2 = Inl TypeError"
    by (simp add: init_Inl)
  ultimately show ?thesis by simp
qed

theorem extract_order_insensitive_witness:
  "set [PyList [''cat''], PyList [''cat'', ''nap''], PyList [''cat'']]
     = set [PyList [''cat'', ''nap''], PyList [''cat'']]
   \<and> map_sum id (\<lambda>self. extract_py self [''cat'', ''nap''])
         (init [PyList [''cat''], PyList [''cat'', ''nap''], PyList [''cat'']])
       = Inr [(0, [''cat'']), (0, [''cat'', ''nap''])]"
proof -
  have s: "set [PyList [''cat''], PyList [''cat'', ''nap''], PyList [''cat'']]
             = set [PyList [''cat'', ''nap''], PyList [''cat'']]"
    by auto
  from extract_order_insensitive [OF s, of "[''cat'', ''nap'']"] s show ?thesis
    by (simp add: init_list_cat_nap nested_overlap_with_lists)
qed

text \<open>
  C8. Bound on the active matches: at the end of every iteration of the loop, the matches
  carried over to the next token are at most as many as the longest concept is long; they
  have distinct start indices, and each has matched at least one token and no more tokens
  than the longest concept has.
\<close>

theorem active_matches_bounded:
  assumes "init D = Inr self"
  shows "length (fst (state_after self tokens k)) \<le> max_concept_length D
         \<and> distinct (map (\<lambda>a. fst (fst a)) (fst (state_after self tokens k)))
         \<and> (\<forall>a\<in>set (fst (state_after self tokens k)).
               1 \<le> length (snd (fst a)) \<and> length (snd (fst a)) \<le> max_concept_length D)"
proof -
  let ?seen = "take k tokens"
  have st: "fst (state_after self tokens k) = active_of (dictionary self) ?seen"
    by (simp add: state_after_eq)
  have "distinct (map (\<lambda>a. fst (fst a)) (active_of (dictionary self) ?seen))"
    unfolding starts_active_of by (rule distinct_filter) simp
  moreover have "1 \<le> length (snd (fst a)) \<and> length (snd (fst a)) \<le> max_concept_length D"
    if "a \<in> set (active_of (dictionary self) ?seen)" for a
  proof -
    obtain start match pointer where a: "a = ((start, match), pointer)"
      by (metis surj_pair)
    from in_active_of [OF that [unfolded a]] obtain b
      where s: "start < length ?seen" and m: "match = drop start ?seen"
        and w: "walk (False, dictionary self) match = Some (b, pointer)"
      by blast
    from s m have ne: "match \<noteq> []" by (simp del: length_take)
    from walk_depth [OF assms w ne] ne show ?thesis
      by (cases match) (simp_all add: a)
  qed
  ultimately show ?thesis
    unfolding st using active_of_bounded [OF assms] by blast
qed

theorem active_matches_bounded_witness:
  "init [PyList [''cat'', ''nap'']]
     = Inr \<lparr>dictionary = PyDict [(''cat'', False, PyDict [(''nap'', True, PyDict [])])]\<rparr>
   \<and> fst (state_after \<lparr>dictionary = PyDict [(''cat'', False, PyDict [(''nap'', True, PyDict [])])]\<rparr>
             [''cat'', ''nap''] 1)
       = [((0, [''cat'']), PyDict [(''nap'', True, PyDict [])])]
   \<and> max_concept_length [PyList [''cat'', ''nap'']] = 2
   \<and> length (fst (state_after \<lparr>dictionary = PyDict [(''cat'', False, PyDict [(''nap'', True, PyDict [])])]\<rparr>
             [''cat'', ''nap''] 1))
       \<le> max_concept_length [PyList [''cat'', ''nap'']]"
proof -
  have st: "fst (state_after \<lparr>dictionary = PyDict [(''cat'', False, PyDict [(''nap'', True, PyDict [])])]\<rparr>
             [''cat'', ''nap''] 1)
       = [((0, [''cat'']), PyDict [(''nap'', True, PyDict [])])]"
    by code_simp
  have mx: "max_concept_length [PyList [''cat'', ''nap'']] = 2"
    by (simp add: max_concept_length_def)
  from active_matches_bounded [OF init_list_catnap, of "[''cat'', ''nap'']" 1]
  have "length (fst (state_after \<lparr>dictionary = PyDict [(''cat'', False, PyDict [(''nap'', True, PyDict [])])]\<rparr>
             [''cat'', ''nap''] 1))
       \<le> max_concept_length [PyList [''cat'', ''nap'']]"
    by (rule conjunct1)
  with init_list_catnap st mx show ?thesis by (intro conjI)
qed

text \<open>
  C9. For a dictionary whose concepts are all tuples, the type the signature declares, the
  extractor is built without error, no path of its trie is flagged, and \<^verbatim>\<open>extract\<close> yields
  nothing on any token stream: \<^verbatim>\<open>[] in entries\<close> asks for an entry equal to the empty list,
  and no tuple is.
\<close>

theorem tuples_yield_nothing:
  assumes "\<forall>c\<in>set D. is_tuple c"
  shows "\<exists>self. init D = Inr self \<and> (\<forall>path. \<not> flagged (dictionary self) path)
               \<and> (\<forall>S. extract_py self S = [])"
proof -
  from comparable_tuples [OF assms] obtain self where self: "init D = Inr self"
    by (simp add: init_Inr)
  have nf: "\<not> flagged (dictionary self) path" for path
  proof
    assume "flagged (dictionary self) path"
    with flagged_init [OF self] have "PyList path \<in> set D" by simp
    with assms have "is_tuple (PyList path)" by (rule bspec)
    then show False by simp
  qed
  have "extract_py self S = []" for S
  proof -
    have "emit_at (dictionary self) seen i = []" for seen i
      by (simp add: emit_at_eq nf)
    then show ?thesis
      by (simp add: extract_py_eq all_emits_def emits_of_def)
  qed
  with self nf show ?thesis by blast
qed

theorem tuples_yield_nothing_witness:
  "is_tuple (PyTuple [''cat'', ''nap'']) \<and> is_tuple (PyTuple [''cat''])
   \<and> init [PyTuple [''cat'', ''nap''], PyTuple [''cat'']]
       = Inr \<lparr>dictionary = PyDict [(''cat'', False, PyDict [(''nap'', False, PyDict [])])]\<rparr>
   \<and> extract_py \<lparr>dictionary = PyDict [(''cat'', False, PyDict [(''nap'', False, PyDict [])])]\<rparr>
         [''cat'', ''nap'', ''cat''] = []"
proof -
  have t: "\<forall>c\<in>set [PyTuple [''cat'', ''nap''], PyTuple [''cat'']]. is_tuple c" by simp
  from tuples_yield_nothing [OF t] obtain self
    where "init [PyTuple [''cat'', ''nap''], PyTuple [''cat'']] = Inr self"
      and e: "\<forall>S. extract_py self S = []"
    by blast
  with init_tuple_cat_nap
  have "self = \<lparr>dictionary = PyDict [(''cat'', False, PyDict [(''nap'', False, PyDict [])])]\<rparr>"
    by simp
  with e have "extract_py \<lparr>dictionary = PyDict [(''cat'', False, PyDict [(''nap'', False, PyDict [])])]\<rparr>
         [''cat'', ''nap'', ''cat''] = []"
    by blast
  with init_tuple_cat_nap show ?thesis by simp
qed




end
